theory Spec2Isabelle
  imports Main "HOL-Library.Sublist" "HOL-Library.FSet"
begin

section \<open>Strings of the crawler\<close>

text \<open>
  A Python \<open>str\<close> is modelled as a \<open>string\<close>, a list of 8-bit characters read as the
  code points below 256. The character classes of \<open>str.strip\<close>, \<open>str.lower\<close>,
  \<open>str.splitlines\<close> and of the regular expressions \<open>\s\<close>, \<open>\d\<close>, \<open>\w\<close> are
  those of Python 3 on that range.
\<close>

definition LF :: char where
  "LF = CHR 0x0A"

definition CR :: char where
  "CR = CHR 0x0D"

definition is_space :: "char \<Rightarrow> bool" where
  \<comment> \<open>\<open>str.isspace\<close> of one character, also the class \<open>\s\<close>\<close>
  "is_space c = (c \<in> set [CHR 0x09, CHR 0x0A, CHR 0x0B, CHR 0x0C, CHR 0x0D,
     CHR 0x1C, CHR 0x1D, CHR 0x1E, CHR 0x1F, CHR 0x20, CHR 0x85, CHR 0xA0])"

definition is_digit :: "char \<Rightarrow> bool" where
  \<comment> \<open>the classes \<open>[0-9]\<close> and \<open>\d\<close>\<close>
  "is_digit c = (c \<in> set ''0123456789'')"

definition is_lower :: "char \<Rightarrow> bool" where
  "is_lower c = (c \<in> set ''abcdefghijklmnopqrstuvwxyz'')"

definition is_upper :: "char \<Rightarrow> bool" where
  "is_upper c = (c \<in> set ''ABCDEFGHIJKLMNOPQRSTUVWXYZ'')"

definition is_alnum :: "char \<Rightarrow> bool" where
  \<comment> \<open>the class \<open>[A-Za-z0-9]\<close>\<close>
  "is_alnum c = (is_upper c \<or> is_lower c \<or> is_digit c)"

definition is_lower_alnum :: "char \<Rightarrow> bool" where
  \<comment> \<open>the class \<open>[a-z0-9]\<close>\<close>
  "is_lower_alnum c = (is_lower c \<or> is_digit c)"

definition is_dir_char :: "char \<Rightarrow> bool" where
  \<comment> \<open>the class \<open>[A-Za-z0-9_-]\<close>\<close>
  "is_dir_char c = (is_alnum c \<or> c = CHR ''_'' \<or> c = CHR ''-'')"

definition is_ident_char :: "char \<Rightarrow> bool" where
  \<comment> \<open>the class \<open>[A-Za-z0-9_]\<close>\<close>
  "is_ident_char c = (is_alnum c \<or> c = CHR ''_'')"

definition is_word :: "char \<Rightarrow> bool" where
  \<comment> \<open>the class \<open>\w\<close> of a \<open>str\<close> pattern: \<open>str.isalnum\<close> or an underscore\<close>
  "is_word c = (is_ident_char c \<or>
     (let n = (of_char c :: nat) in
        n = 0xAA \<or> n = 0xB2 \<or> n = 0xB3 \<or> n = 0xB5 \<or> n = 0xB9 \<or> n = 0xBA \<or>
        (0xBC \<le> n \<and> n \<le> 0xBE) \<or> (0xC0 \<le> n \<and> n \<le> 0xD6) \<or>
        (0xD8 \<le> n \<and> n \<le> 0xF6) \<or> 0xF8 \<le> n))"

definition lower_char :: "char \<Rightarrow> char" where
  "lower_char c = (let n = (of_char c :: nat) in
     if (65 \<le> n \<and> n \<le> 90) \<or> (192 \<le> n \<and> n \<le> 222 \<and> n \<noteq> 215)
     then char_of (n + 32) else c)"

definition lower :: "string \<Rightarrow> string" where
  \<comment> \<open>\<open>str.lower\<close>\<close>
  "lower s = map lower_char s"

definition rstrip_with :: "(char \<Rightarrow> bool) \<Rightarrow> string \<Rightarrow> string" where
  "rstrip_with P s = rev (dropWhile P (rev s))"

definition strip_with :: "(char \<Rightarrow> bool) \<Rightarrow> string \<Rightarrow> string" where
  "strip_with P s = rstrip_with P (dropWhile P s)"

definition strip :: "string \<Rightarrow> string" where
  \<comment> \<open>\<open>str.strip()\<close>\<close>
  "strip s = strip_with is_space s"

definition strip_hyphens :: "string \<Rightarrow> string" where
  \<comment> \<open>\<open>str.strip("-")\<close>\<close>
  "strip_hyphens s = strip_with (\<lambda>c. c = CHR ''-'') s"

definition startswith :: "string \<Rightarrow> string \<Rightarrow> bool" where
  \<comment> \<open>\<open>s.startswith(p)\<close>\<close>
  "startswith s p = (take (length p) s = p)"

definition endswith :: "string \<Rightarrow> string \<Rightarrow> bool" where
  \<comment> \<open>\<open>s.endswith(p)\<close>\<close>
  "endswith s p = (length p \<le> length s \<and> drop (length s - length p) s = p)"

text \<open>
  \<open>re.sub(r"[C]+", rep, s)\<close> for a character class \<open>C\<close>: every maximal run of characters
  of the class is replaced by \<open>rep\<close>.
\<close>

function sub_runs :: "(char \<Rightarrow> bool) \<Rightarrow> string \<Rightarrow> string \<Rightarrow> string" where
  "sub_runs P rep [] = []"
| "sub_runs P rep (c # cs) =
     (if P c then rep @ sub_runs P rep (dropWhile P cs) else c # sub_runs P rep cs)"
  by pat_completeness auto
termination
  by (relation "measure (\<lambda>(P, rep, s). length s)")
     (auto simp: less_Suc_eq_le length_dropWhile_le)

text \<open>\<open>re.sub(r"-{2,}", "-", s)\<close>: every maximal run of two or more hyphens becomes one.\<close>

function sub_hyphens :: "string \<Rightarrow> string" where
  "sub_hyphens [] = []"
| "sub_hyphens (c # cs) =
     (if c = CHR ''-'' \<and> cs \<noteq> [] \<and> hd cs = CHR ''-''
      then CHR ''-'' # sub_hyphens (dropWhile (\<lambda>c. c = CHR ''-'') cs)
      else c # sub_hyphens cs)"
  by pat_completeness auto
termination
  by (relation "measure length") (auto simp: less_Suc_eq_le length_dropWhile_le)

section \<open>Identifier sanitizer\<close>

definition slugify :: "string \<Rightarrow> string" where
  "slugify s0 =
     (let s = lower (strip s0);
          s = sub_runs (\<lambda>c. \<not> is_lower_alnum c) ''-'' s;
          s = strip_hyphens (sub_hyphens s)
      in s)"

text \<open>
  \<open>_DIR_RE = ^[A-Za-z0-9][A-Za-z0-9_-]*$\<close> applied with \<open>match\<close>: the first character is
  of the first class, the star takes the longest run of the second class, and \<open>$\<close>
  (without \<open>re.MULTILINE\<close>) holds at the end of the string and also just before a line
  feed that ends the string.
\<close>

definition dir_re_match :: "string \<Rightarrow> bool" where
  "dir_re_match s =
     (case s of [] \<Rightarrow> False
      | c # cs \<Rightarrow> is_alnum c \<and>
          (let r = dropWhile is_dir_char cs in r = [] \<or> r = [LF]))"

definition is_valid_dir :: "string \<Rightarrow> bool" where
  "is_valid_dir s = (s \<noteq> [] \<and> dir_re_match s)"

text \<open>The validator as the specification words it.\<close>

definition valid_dir_spec :: "string \<Rightarrow> bool" where
  "valid_dir_spec s = (s \<noteq> [] \<and> is_alnum (hd s) \<and> list_all is_dir_char (tl s))"

text \<open>No two adjacent hyphens, as a recursive test.\<close>

fun no_double :: "string \<Rightarrow> bool" where
  "no_double (a # b # r) = (\<not> (a = CHR ''-'' \<and> b = CHR ''-'') \<and> no_double (b # r))"
| "no_double _ = True"

section \<open>Metadata extractor\<close>

text \<open>\<open>s.find(sub)\<close>: the lowest index at which \<open>sub\<close> occurs, \<open>None\<close> for Python's \<open>-1\<close>.\<close>

fun find_sub :: "string \<Rightarrow> string \<Rightarrow> nat option" where
  "find_sub sub [] = (if sub = [] then Some 0 else None)"
| "find_sub sub (c # cs) =
     (if startswith (c # cs) sub then Some 0 else map_option Suc (find_sub sub cs))"

definition find_from :: "string \<Rightarrow> string \<Rightarrow> nat \<Rightarrow> nat option" where
  \<comment> \<open>\<open>s.find(sub, start)\<close>\<close>
  "find_from sub s start = map_option (\<lambda>i. i + start) (find_sub sub (drop start s))"

definition first_docblock :: "string \<Rightarrow> string" where
  "first_docblock text =
     (let head = take 8000 text in
      case find_sub ''/**'' head of
        None \<Rightarrow> []
      | Some start \<Rightarrow>
          (case find_from ''*/'' head start of
             None \<Rightarrow> []
           | Some end \<Rightarrow> take (end + 2 - start) (drop start head)))"

definition is_linebreak :: "char \<Rightarrow> bool" where
  \<comment> \<open>the line boundaries of \<open>str.splitlines\<close>\<close>
  "is_linebreak c = (c \<in> set [CHR 0x0A, CHR 0x0B, CHR 0x0C, CHR 0x0D,
     CHR 0x1C, CHR 0x1D, CHR 0x1E, CHR 0x85])"

fun splitlines_acc :: "string \<Rightarrow> string \<Rightarrow> string list" where
  "splitlines_acc acc [] = (if acc = [] then [] else [acc])"
| "splitlines_acc acc [c] = (if is_linebreak c then [acc] else [acc @ [c]])"
| "splitlines_acc acc (c # d # cs) =
     (if c = CR \<and> d = LF then acc # splitlines_acc [] cs
      else if is_linebreak c then acc # splitlines_acc [] (d # cs)
      else splitlines_acc (acc @ [c]) (d # cs))"

definition splitlines :: "string \<Rightarrow> string list" where
  \<comment> \<open>\<open>str.splitlines()\<close>: a carriage return followed by a line feed is one boundary\<close>
  "splitlines s = splitlines_acc [] s"

definition docblock_line :: "string \<Rightarrow> string" where
  \<comment> \<open>the body of the loop of \<open>_docblock_lines\<close>\<close>
  "docblock_line raw =
     (let line = strip raw;
          line = (if startswith line ''/**'' then drop 3 line else line);
          line = (if endswith line ''*/'' then take (length line - 2) line else line)
      in strip (dropWhile (\<lambda>c. c = CHR ''*'') line))"

definition docblock_lines :: "string \<Rightarrow> string list" where
  "docblock_lines doc = map docblock_line (splitlines doc)"

fun pick_first_nonempty :: "string list \<Rightarrow> string" where
  "pick_first_nonempty [] = []"
| "pick_first_nonempty (line # lines) =
     (if line = [] then pick_first_nonempty lines
      else if startswith line ''@'' then pick_first_nonempty lines
      else strip line)"

text \<open>
  \<open>re.match(r"@TAG\s+(.+)", line, re.I)\<close>, giving \<open>group(1)\<close>. The tag is matched without
  regard to case. \<open>\s+\<close> first takes the whole run of white space and gives characters
  back one at a time, down to one, until \<open>(.+)\<close> finds a character that is not a line
  feed; the group is then the longest run of such characters.
\<close>

fun ws_value :: "string \<Rightarrow> nat \<Rightarrow> string option" where
  "ws_value rest 0 = None"
| "ws_value rest (Suc k) =
     (case drop (Suc k) rest of
        [] \<Rightarrow> ws_value rest k
      | c # cs \<Rightarrow> if c = LF then ws_value rest k
                 else Some (takeWhile (\<lambda>c. c \<noteq> LF) (c # cs)))"

definition match_tag :: "string \<Rightarrow> string \<Rightarrow> string option" where
  "match_tag tag line =
     (let n = Suc (length tag) in
      if lower (take n line) = CHR ''@'' # tag
      then ws_value (drop n line) (length (takeWhile is_space (drop n line)))
      else None)"

text \<open>The metadata dictionary: its five keys are always present.\<close>

record meta =
  meta_package :: string
  meta_author :: string
  meta_version :: string
  meta_link :: string
  meta_description :: string

definition parse_line :: "meta \<Rightarrow> string \<Rightarrow> meta" where
  \<comment> \<open>the body of the loop of \<open>_parse_docblock\<close>\<close>
  "parse_line m line =
     (case (match_tag ''package'' line, meta_package m = []) of
        (Some v, True) \<Rightarrow> m\<lparr>meta_package := strip v\<rparr>
      | _ \<Rightarrow>
     (case (match_tag ''author'' line, meta_author m = []) of
        (Some v, True) \<Rightarrow> m\<lparr>meta_author := strip v\<rparr>
      | _ \<Rightarrow>
     (case (match_tag ''version'' line, meta_version m = []) of
        (Some v, True) \<Rightarrow> m\<lparr>meta_version := strip v\<rparr>
      | _ \<Rightarrow>
     (case (match_tag ''link'' line, meta_link m = []) of
        (Some v, True) \<Rightarrow> m\<lparr>meta_link := strip v\<rparr>
      | _ \<Rightarrow> m))))"

definition parse_docblock :: "string \<Rightarrow> meta" where
  "parse_docblock doc =
     (let lines = docblock_lines doc;
          m = \<lparr>meta_package = [], meta_author = [], meta_version = [], meta_link = [],
               meta_description = pick_first_nonempty lines\<rparr>
      in fold (\<lambda>line m. parse_line m line) lines m)"

definition empty_meta :: meta where
  "empty_meta = \<lparr>meta_package = [], meta_author = [], meta_version = [], meta_link = [],
     meta_description = []\<rparr>"

text \<open>
  \<open>re.search(r"\bclass\s+([A-Za-z0-9_]+)_Plugin\b", head)\<close>. At a position where the
  word \<open>class\<close> and white space are found, the group can only be the following run of
  \<open>[A-Za-z0-9_]\<close> without its last seven characters \<open>_Plugin\<close>: the closing \<open>\b\<close> fails
  inside the run. The flag of \<open>class_search\<close> tells whether the previous character is a
  word character.
\<close>

definition class_match_here :: "string \<Rightarrow> string option" where
  "class_match_here s =
     (if startswith s ''class''
      then (let r = drop 5 s;
                r' = dropWhile is_space r;
                w = takeWhile is_ident_char r';
                after = dropWhile is_ident_char r'
            in if takeWhile is_space r \<noteq> [] \<and> endswith w ''_Plugin'' \<and> 7 < length w
                  \<and> (after = [] \<or> \<not> is_word (hd after))
               then Some (take (length w - 7) w) else None)
      else None)"

fun class_search :: "bool \<Rightarrow> string \<Rightarrow> string option" where
  "class_search pw [] = None"
| "class_search pw (c # cs) =
     (case (if pw then None else class_match_here (c # cs)) of
        Some g \<Rightarrow> Some g
      | None \<Rightarrow> class_search (is_word c) cs)"

definition extract_class_prefix :: "string \<Rightarrow> string" where
  "extract_class_prefix text =
     (let head = take 16000 text in
      strip (case class_search False head of Some g \<Rightarrow> g | None \<Rightarrow> []))"

text \<open>
  \<open>re.search(r"(\d+\.\d+(?:\.\d+)?)", v)\<close>: at a position, the longest run of digits, a
  dot, the longest run of digits, and a further dot and run of digits when present; the
  search returns the match at the leftmost position that has one.
\<close>

definition match_dotted :: "string \<Rightarrow> string option" where
  "match_dotted s =
     (let d1 = takeWhile is_digit s; r1 = dropWhile is_digit s in
      if d1 = [] then None
      else (case r1 of
              [] \<Rightarrow> None
            | c # r \<Rightarrow>
                if c \<noteq> CHR ''.'' then None
                else (let d2 = takeWhile is_digit r; r2 = dropWhile is_digit r in
                      if d2 = [] then None
                      else (case r2 of
                              [] \<Rightarrow> Some (d1 @ ''.'' @ d2)
                            | c2 # r3 \<Rightarrow>
                                if c2 = CHR ''.'' \<and> takeWhile is_digit r3 \<noteq> []
                                then Some (d1 @ ''.'' @ d2 @ ''.'' @ takeWhile is_digit r3)
                                else Some (d1 @ ''.'' @ d2)))))"

fun search_dotted :: "string \<Rightarrow> string option" where
  "search_dotted [] = None"
| "search_dotted (c # cs) =
     (case match_dotted (c # cs) of Some m \<Rightarrow> Some m | None \<Rightarrow> search_dotted cs)"

definition is_version_char :: "char \<Rightarrow> bool" where
  \<comment> \<open>the class \<open>[0-9A-Za-z.+-]\<close>\<close>
  "is_version_char c = (is_alnum c \<or> c = CHR ''.'' \<or> c = CHR ''+'' \<or> c = CHR ''-'')"

definition version_fallback :: "string \<Rightarrow> string" where
  \<comment> \<open>the last three lines of \<open>_clean_version\<close>\<close>
  "version_fallback v =
     (let v = dropWhile (\<lambda>c. c = CHR ''v'' \<or> c = CHR ''V'') v;
          v = map (\<lambda>c. if c = CHR ''_'' then CHR ''.'' else c) v
      in filter is_version_char v)"

definition clean_version :: "string \<Rightarrow> string" where
  "clean_version v0 =
     (let v = strip v0 in
      if v = [] then []
      else (case search_dotted v of
              Some m \<Rightarrow> m
            | None \<Rightarrow> version_fallback v))"

text \<open>
  The parser as the specification words it: the value of a tag is taken from the first
  line that carries the tag, and the description is the first line that is not empty and
  does not begin with \<open>@\<close>.
\<close>

definition first_tag_value :: "string \<Rightarrow> string list \<Rightarrow> string" where
  "first_tag_value tag lines =
     (case List.find (\<lambda>l. match_tag tag l \<noteq> None) lines of
        None \<Rightarrow> []
      | Some l \<Rightarrow> (case match_tag tag l of Some v \<Rightarrow> strip v | None \<Rightarrow> []))"

definition first_description :: "string list \<Rightarrow> string" where
  "first_description lines =
     (case List.find (\<lambda>l. l \<noteq> [] \<and> \<not> startswith l ''@'') lines of
        None \<Rightarrow> []
      | Some l \<Rightarrow> l)"

definition trimmed :: "string \<Rightarrow> bool" where
  \<comment> \<open>no white space at either end\<close>
  "trimmed l = (l = [] \<or> (\<not> is_space (hd l) \<and> \<not> is_space (last l)))"

definition sample_block :: string where
  "sample_block =
     ''/**'' @ [LF] @
     '' * A sample plugin.'' @ [LF] @
     '' *'' @ [LF] @
     '' * @package Foo'' @ [LF] @
     '' * @author Jane'' @ [LF] @
     '' * @version 1.2'' @ [LF] @
     '' * @link http://example.com'' @ [LF] @
     '' * @author Bob'' @ [LF] @
     '' */''"

text \<open>
  A dotted numeric sequence of two or three components, an occurrence of one in a string,
  and the first occurrence: none starts earlier, and none that starts at the same place
  is longer.
\<close>

definition is_digits :: "string \<Rightarrow> bool" where
  "is_digits s = (s \<noteq> [] \<and> list_all is_digit s)"

definition is_dotted :: "string \<Rightarrow> bool" where
  "is_dotted m = (\<exists>a b. is_digits a \<and> is_digits b \<and>
     (m = a @ ''.'' @ b \<or> (\<exists>c. is_digits c \<and> m = a @ ''.'' @ b @ ''.'' @ c)))"

definition contains_dotted :: "string \<Rightarrow> bool" where
  "contains_dotted s = (\<exists>pre m post. s = pre @ m @ post \<and> is_dotted m)"

definition first_dotted_in :: "string \<Rightarrow> string \<Rightarrow> bool" where
  "first_dotted_in s m = (\<exists>pre post. s = pre @ m @ post \<and> is_dotted m \<and>
     (\<forall>pre' m' post'. s = pre' @ m' @ post' \<and> is_dotted m' \<longrightarrow>
        length pre \<le> length pre' \<and> (length pre' = length pre \<longrightarrow> length m' \<le> length m)))"

text \<open>The fallback of the version cleaner as the specification words it.\<close>

definition version_fallback_spec :: "string \<Rightarrow> string" where
  "version_fallback_spec v =
     (let v = (case v of [] \<Rightarrow> [] | c # cs \<Rightarrow> if c = CHR ''v'' then cs else c # cs);
          v = map (\<lambda>c. if c = CHR ''_'' then CHR ''.'' else c) v
      in filter is_version_char v)"

section \<open>Project builder\<close>

record GithubRepo =
  owner :: string
  repo :: string
  html_url :: string
  description :: string
  default_branch :: string
  homepage :: string

text \<open>
  A project record is a Python dictionary with string keys. Its values are the JSON
  values the catalog holds: strings, booleans and \<open>null\<close>. An absent key is \<open>None\<close> of
  the map, which is also what \<open>dict.get\<close> returns for it.
\<close>

datatype val = VStr string | VBool bool | VNull

type_synonym project = "string \<rightharpoonup> val"

text \<open>
  \<open>re.sub(r"(?i)^typecho[-_]?WORD[-_]+", "", name)\<close> for a lowercase \<open>WORD\<close>: the pattern
  is anchored at the start, so at most the prefix is removed.
\<close>

definition is_sep :: "char \<Rightarrow> bool" where
  \<comment> \<open>the class \<open>[-_]\<close>\<close>
  "is_sep c = (c = CHR ''-'' \<or> c = CHR ''_'')"

definition strip_typecho_prefix :: "string \<Rightarrow> string \<Rightarrow> string" where
  "strip_typecho_prefix word name =
     (if lower (take 7 name) = ''typecho''
      then (let r0 = drop 7 name;
                r1 = (case r0 of [] \<Rightarrow> r0 | c # r \<Rightarrow> if is_sep c then r else r0);
                r2 = drop (length word) r1
            in if lower (take (length word) r1) = word \<and> takeWhile is_sep r2 \<noteq> []
               then dropWhile is_sep r2 else name)
      else name)"

definition derive_display_name :: "string \<Rightarrow> string \<Rightarrow> string" where
  "derive_display_name repo_name kind =
     (let name = strip repo_name;
          name = (if kind = ''plugin'' then strip_typecho_prefix ''plugin'' name
                  else if kind = ''theme'' then strip_typecho_prefix ''theme'' name
                  else name);
          name = strip name
      in if name \<noteq> [] then name else repo_name)"

definition sanitize_dir :: "string \<Rightarrow> string" where
  \<comment> \<open>\<open>re.sub(r"[^A-Za-z0-9_-]+", "-", s).strip("-")\<close>\<close>
  "sanitize_dir s = strip_hyphens (sub_runs (\<lambda>c. \<not> is_dir_char c) ''-'' s)"

definition build_dir :: "string \<Rightarrow> string \<Rightarrow> meta \<Rightarrow> string \<Rightarrow> string" where
  "build_dir kind repo_name m class_prefix =
     (let package = strip (meta_package m) in
      if is_valid_dir package then package
      else if is_valid_dir class_prefix then class_prefix
      else (let derived = derive_display_name repo_name kind in
            if is_valid_dir derived then derived
            else (let sanitized = sanitize_dir derived in
                  if is_valid_dir sanitized then sanitized
                  else (let sanitized = sanitize_dir repo_name in
                        if is_valid_dir sanitized then sanitized else []))))"

definition project_meta :: "string \<Rightarrow> meta" where
  \<comment> \<open>the first two statements of \<open>_make_project\<close>\<close>
  "project_meta file_text =
     (let doc = first_docblock file_text in
      if doc \<noteq> [] then parse_docblock doc else empty_meta)"

definition py_or :: "string \<Rightarrow> string \<Rightarrow> string" where
  \<comment> \<open>\<open>a or b\<close> on strings\<close>
  "py_or a b = (if a \<noteq> [] then a else b)"

definition project_donate :: "meta \<Rightarrow> GithubRepo \<Rightarrow> string" where
  \<comment> \<open>the statements of \<open>_make_project\<close> that compute \<open>donate\<close>\<close>
  "project_donate m gr =
     (let donate = [];
          link = strip (py_or (meta_link m) []);
          donate = (if link \<noteq> [] \<and> \<not> startswith (lower link) ''https://github.com/''
                    then link else donate);
          donate = (if donate = [] \<and> homepage gr \<noteq> []
                       \<and> (startswith (lower (homepage gr)) ''http://''
                            \<or> startswith (lower (homepage gr)) ''https://'')
                    then homepage gr else donate)
      in donate)"

definition make_project :: "string \<Rightarrow> GithubRepo \<Rightarrow> string \<Rightarrow> project" where
  "make_project kind gr file_text =
     (let m = project_meta file_text;
          class_prefix = (if kind = ''plugin'' then extract_class_prefix file_text else []);
          install_dir = build_dir kind (repo gr) m class_prefix;
          display_name = derive_display_name (repo gr) kind;
          display_name = (if meta_package m \<noteq> [] \<and> 40 < length display_name
                          then meta_package m else display_name);
          donate = project_donate m gr;
          version = clean_version (py_or (meta_version m) []);
          author = strip (py_or (meta_author m) []);
          author = (if author = [] then owner gr else author);
          description = py_or (description gr) (py_or (meta_description m) []);
          project_id = kind @ ''-'' @
            py_or (slugify (py_or install_dir (repo gr))) (slugify (owner gr @ ''-'' @ repo gr))
      in map_of
           [(''id'', VStr project_id),
            (''name'', VStr display_name),
            (''type'', VStr kind),
            (''link'', VStr (py_or (html_url gr)
                               (''https://github.com/'' @ owner gr @ ''/'' @ repo gr))),
            (''isGithub'', VBool True),
            (''direct'', VBool True),
            (''version'', VStr version),
            (''typecho'', VStr []),
            (''author'', VStr author),
            (''donate'', VStr donate),
            (''description'', VStr description),
            (''dir'', VStr (py_or install_dir (repo gr)))])"

text \<open>An occurrence of a substring at an index.\<close>

definition occurs_at :: "string \<Rightarrow> string \<Rightarrow> nat \<Rightarrow> bool" where
  "occurs_at sub s i = (take (length sub) (drop i s) = sub)"

definition sample_repo :: GithubRepo where
  "sample_repo = \<lparr>owner = ''a'', repo = ''b'', html_url = ''https://github.com/a/b'',
     description = [], default_branch = ''main'', homepage = []\<rparr>"

section \<open>Properties of the identifier sanitizer\<close>

lemma set_sub_runs: "set (sub_runs P rep s) \<subseteq> set rep \<union> {c \<in> set s. \<not> P c}"
proof (induction P rep s rule: sub_runs.induct)
  case (1 P rep)
  then show ?case by simp
next
  case (2 P rep c cs)
  have "set (dropWhile P cs) \<subseteq> set cs" by (simp add: set_dropWhileD subsetI)
  with 2 show ?case by (auto split: if_splits)
qed

lemma set_sub_hyphens: "set (sub_hyphens s) \<subseteq> set s"
proof (induction s rule: sub_hyphens.induct)
  case 1
  then show ?case by simp
next
  case (2 c cs)
  have "set (dropWhile (\<lambda>c. c = CHR ''-'') cs) \<subseteq> set cs" by (simp add: set_dropWhileD subsetI)
  with 2 show ?case by (auto split: if_splits)
qed

lemma sub_hyphens_Nil: "sub_hyphens s = [] \<longleftrightarrow> s = []"
  by (cases s) auto

lemma hd_sub_hyphens: "s \<noteq> [] \<Longrightarrow> hd (sub_hyphens s) = hd s"
  by (cases s) auto

lemma no_double_Cons: "no_double (a # s) \<longleftrightarrow> (s = [] \<or> \<not> (a = CHR ''-'' \<and> hd s = CHR ''-'')) \<and> no_double s"
  by (cases s) auto

lemma hd_dropWhile': "dropWhile P s \<noteq> [] \<Longrightarrow> \<not> P (hd (dropWhile P s))"
  by (simp add: hd_dropWhile)

lemma no_double_sub_hyphens: "no_double (sub_hyphens s)"
proof (induction s rule: sub_hyphens.induct)
  case 1
  then show ?case by simp
next
  case (2 c cs)
  show ?case
  proof (cases "c = CHR ''-'' \<and> cs \<noteq> [] \<and> hd cs = CHR ''-''")
    case True
    define d where "d = dropWhile (\<lambda>c. c = CHR ''-'') cs"
    have "d \<noteq> [] \<Longrightarrow> hd d \<noteq> CHR ''-''"
      unfolding d_def by (rule hd_dropWhile')
    then have "sub_hyphens d = [] \<or> hd (sub_hyphens d) \<noteq> CHR ''-''"
      by (cases "d = []") (simp_all add: hd_sub_hyphens)
    moreover have "no_double (sub_hyphens d)" using True 2 unfolding d_def by blast
    moreover have "sub_hyphens (c # cs) = CHR ''-'' # sub_hyphens d"
      using True unfolding d_def by simp
    ultimately show ?thesis by (simp only: no_double_Cons) blast
  next
    case False
    then have eq: "sub_hyphens (c # cs) = c # sub_hyphens cs" by auto
    have nd: "no_double (sub_hyphens cs)" using False 2 by blast
    have "sub_hyphens cs = [] \<or> \<not> (c = CHR ''-'' \<and> hd (sub_hyphens cs) = CHR ''-'')"
      using False by (cases "cs = []") (auto simp: hd_sub_hyphens)
    with nd eq show ?thesis by (simp add: no_double_Cons)
  qed
qed

lemma no_double_sublist: "no_double s \<longleftrightarrow> \<not> sublist ''--'' s"
proof (induction s rule: no_double.induct)
  case (1 a b r)
  then show ?case by (auto simp: sublist_Cons_right)
qed (auto simp: sublist_Cons_right)

lemma strip_with_sublist: "sublist (strip_with P s) s"
proof -
  have "sublist (rev (dropWhile P (rev (dropWhile P s)))) (dropWhile P s)"
    by (metis sublist_rev_left suffix_dropWhile suffix_imp_sublist)
  moreover have "sublist (dropWhile P s) s"
    using suffix_dropWhile suffix_imp_sublist by blast
  ultimately show ?thesis unfolding strip_with_def rstrip_with_def
    using sublist_order.order_trans by blast
qed

lemma strip_with_ends:
  "strip_with P s = [] \<or> (\<not> P (hd (strip_with P s)) \<and> \<not> P (last (strip_with P s)))"
proof (cases "strip_with P s = []")
  case True then show ?thesis by simp
next
  case False
  define d where "d = dropWhile P s"
  define r where "r = dropWhile P (rev d)"
  have sw: "strip_with P s = rev r" by (simp add: strip_with_def rstrip_with_def d_def r_def)
  from False have r: "r \<noteq> []" by (simp add: sw)
  have d: "d \<noteq> []"
  proof
    assume "d = []"
    then have "r = []" by (simp add: r_def)
    with r show False by simp
  qed
  have 1: "\<not> P (hd r)" using r unfolding r_def by (rule hd_dropWhile')
  have 2: "\<not> P (hd d)" using d unfolding d_def by (rule hd_dropWhile')
  have l: "last (strip_with P s) = hd r" using r by (simp add: sw last_rev)
  obtain x xs where dx: "d = x # xs" using d by (cases d) auto
  then have np: "\<not> P x" using 2 by simp
  have "r = dropWhile P (rev xs @ [x])" by (simp add: r_def dx)
  also have "\<dots> = dropWhile P (rev xs) @ [x]"
    using np by (simp add: dropWhile_append)
  finally have "rev r = x # rev (dropWhile P (rev xs))" by simp
  then have "hd (strip_with P s) = hd d" by (simp add: sw dx)
  with l 1 2 show ?thesis by simp
qed

lemma slugify_example: "slugify ''  Hello, World_2!  '' = ''hello-world-2''"
  by code_simp

lemma slugify_chars: "list_all (\<lambda>c. is_lower_alnum c \<or> c = CHR ''-'') (slugify s)"
proof -
  define a where "a = sub_runs (\<lambda>c. \<not> is_lower_alnum c) ''-'' (lower (strip s))"
  have "set (slugify s) \<subseteq> set (sub_hyphens a)"
    unfolding slugify_def Let_def a_def strip_hyphens_def
    using strip_with_sublist set_mono_sublist by blast
  also have "\<dots> \<subseteq> set a" by (rule set_sub_hyphens)
  also have "\<dots> \<subseteq> set ''-'' \<union> {c. \<not> \<not> is_lower_alnum c}"
    unfolding a_def using set_sub_runs by blast
  finally show ?thesis by (auto simp: list_all_iff)
qed

text \<open>
  Claim C9. For every input string the output of \<open>slugify\<close> consists only of lowercase
  ASCII letters, digits and hyphens, contains no two adjacent hyphens, and neither starts
  nor ends with a hyphen; \<open>slugify\<close> is a total function, and the empty input yields the
  empty output.
\<close>

theorem slugify_shape:
  "list_all (\<lambda>c. is_lower_alnum c \<or> c = CHR ''-'') (slugify s)
   \<and> \<not> sublist ''--'' (slugify s)
   \<and> \<not> startswith (slugify s) ''-''
   \<and> \<not> endswith (slugify s) ''-''
   \<and> slugify [] = []"
proof -
  define b where "b = sub_hyphens (sub_runs (\<lambda>c. \<not> is_lower_alnum c) ''-'' (lower (strip s)))"
  have sl: "slugify s = strip_with (\<lambda>c. c = CHR ''-'') b"
    by (simp add: slugify_def b_def strip_hyphens_def)
  have "\<not> sublist ''--'' b" unfolding b_def
    using no_double_sub_hyphens no_double_sublist by blast
  then have 2: "\<not> sublist ''--'' (slugify s)"
    unfolding sl using strip_with_sublist sublist_order.order_trans by blast
  have e: "slugify s = [] \<or> (hd (slugify s) \<noteq> CHR ''-'' \<and> last (slugify s) \<noteq> CHR ''-'')"
    unfolding sl using strip_with_ends[of "\<lambda>c. c = CHR ''-''" b] by simp
  have 3: "\<not> startswith (slugify s) ''-''"
    using e by (cases "slugify s") (auto simp: startswith_def)
  have 4: "\<not> endswith (slugify s) ''-''"
  proof
    assume "endswith (slugify s) ''-''"
    then have "slugify s \<noteq> []" and "drop (length (slugify s) - 1) (slugify s) = ''-''"
      by (auto simp: endswith_def)
    then have "last (slugify s) = CHR ''-''"
      by (metis last_drop last.simps diff_less length_greater_0_conv zero_less_one)
    with e \<open>slugify s \<noteq> []\<close> show False by simp
  qed
  have 5: "slugify [] = []"
    by (simp add: slugify_def strip_def strip_with_def rstrip_with_def lower_def strip_hyphens_def)
  from slugify_chars 2 3 4 5 show ?thesis by blast
qed

lemma is_valid_dir_examples:
  "is_valid_dir ''My-Plugin_1'' \<and> \<not> is_valid_dir ''../etc'' \<and> \<not> is_valid_dir ''''"
  by code_simp

text \<open>
  Claim C4. The directory-name validator is claimed to accept exactly the non-empty
  strings whose first character is alphanumeric and whose remaining characters are
  alphanumeric, hyphens or underscores. The pattern ends in \<open>$\<close>, which also holds before
  a final line feed: the validator accepts \<open>abc\<close> followed by a line feed, a string that
  the stated condition rejects.
\<close>

theorem is_valid_dir_trailing_newline:
  "is_valid_dir (''abc'' @ [LF]) \<and> \<not> valid_dir_spec (''abc'' @ [LF])"
  by code_simp

lemma LF_not_dir_char: "\<not> is_dir_char LF"
  by code_simp

lemma dropWhile_eq_singleton:
  "\<not> P x \<Longrightarrow> dropWhile P cs = [x] \<longleftrightarrow> (\<exists>t. cs = t @ [x] \<and> list_all P t)"
proof (induction cs)
  case Nil
  then show ?case by simp
next
  case (Cons a cs)
  show ?case
  proof (cases "P a")
    case True
    have "(\<exists>t. a # cs = t @ [x] \<and> list_all P t) \<longleftrightarrow> (\<exists>t. cs = t @ [x] \<and> list_all P t)"
    proof
      assume "\<exists>t. a # cs = t @ [x] \<and> list_all P t"
      then obtain t where t: "a # cs = t @ [x]" "list_all P t" by blast
      with True Cons.prems obtain t' where "t = a # t'" by (cases t) auto
      with t show "\<exists>t. cs = t @ [x] \<and> list_all P t" by auto
    next
      assume "\<exists>t. cs = t @ [x] \<and> list_all P t"
      then obtain t where "cs = t @ [x]" "list_all P t" by blast
      with True have "a # cs = (a # t) @ [x] \<and> list_all P (a # t)" by simp
      then show "\<exists>t. a # cs = t @ [x] \<and> list_all P t" by blast
    qed
    with True Cons show ?thesis by simp
  next
    case False
    have "(\<exists>t. a # cs = t @ [x] \<and> list_all P t) \<longleftrightarrow> (cs = [] \<and> a = x)"
    proof
      assume "\<exists>t. a # cs = t @ [x] \<and> list_all P t"
      then obtain t where t: "a # cs = t @ [x]" "list_all P t" by blast
      with False show "cs = [] \<and> a = x" by (cases t) auto
    next
      assume "cs = [] \<and> a = x"
      then have "a # cs = [] @ [x] \<and> list_all P []" by simp
      then show "\<exists>t. a # cs = t @ [x] \<and> list_all P t" by blast
    qed
    with False show ?thesis by auto
  qed
qed

text \<open>
  What the validator accepts: the strings of the stated shape, and those strings followed
  by one line feed.
\<close>

lemma is_valid_dir_iff:
  "is_valid_dir s \<longleftrightarrow> valid_dir_spec s \<or> (\<exists>t. s = t @ [LF] \<and> valid_dir_spec t)"
proof (cases s)
  case Nil
  then show ?thesis by (simp add: is_valid_dir_def valid_dir_spec_def)
next
  case (Cons c cs)
  have a: "dropWhile is_dir_char cs = [] \<longleftrightarrow> list_all is_dir_char cs"
    by (simp add: list_all_iff)
  have b: "dropWhile is_dir_char cs = [LF] \<longleftrightarrow> (\<exists>t. cs = t @ [LF] \<and> list_all is_dir_char t)"
    using dropWhile_eq_singleton[of is_dir_char LF cs] LF_not_dir_char by blast
  have c: "(\<exists>t. s = t @ [LF] \<and> valid_dir_spec t) \<longleftrightarrow>
           (is_alnum c \<and> (\<exists>t. cs = t @ [LF] \<and> list_all is_dir_char t))"
  proof
    assume "\<exists>t. s = t @ [LF] \<and> valid_dir_spec t"
    then obtain t where t: "s = t @ [LF]" "valid_dir_spec t" by blast
    then obtain t' where t': "t = c # t'" using Cons by (cases t) (auto simp: valid_dir_spec_def)
    with t Cons have "cs = t' @ [LF]" "is_alnum c" "list_all is_dir_char t'"
      by (auto simp: valid_dir_spec_def)
    then show "is_alnum c \<and> (\<exists>t. cs = t @ [LF] \<and> list_all is_dir_char t)" by blast
  next
    assume "is_alnum c \<and> (\<exists>t. cs = t @ [LF] \<and> list_all is_dir_char t)"
    then obtain t where "is_alnum c" "cs = t @ [LF]" "list_all is_dir_char t" by blast
    then have "s = (c # t) @ [LF] \<and> valid_dir_spec (c # t)"
      using Cons by (simp add: valid_dir_spec_def)
    then show "\<exists>t. s = t @ [LF] \<and> valid_dir_spec t" by blast
  qed
  have "is_valid_dir s \<longleftrightarrow> is_alnum c \<and> (dropWhile is_dir_char cs = [] \<or> dropWhile is_dir_char cs = [LF])"
    using Cons by (simp add: is_valid_dir_def dir_re_match_def Let_def)
  also have "\<dots> \<longleftrightarrow> (is_alnum c \<and> list_all is_dir_char cs) \<or> (is_alnum c \<and> (\<exists>t. cs = t @ [LF] \<and> list_all is_dir_char t))"
    unfolding a b by blast
  finally show ?thesis unfolding c using Cons by (simp add: valid_dir_spec_def)
qed

section \<open>Properties of the metadata extractor\<close>

lemma strip_trimmed: "trimmed (strip s)"
  unfolding trimmed_def strip_def using strip_with_ends[of is_space s] by blast

lemma strip_with_id:
  assumes "l = [] \<or> (\<not> P (hd l) \<and> \<not> P (last l))"
  shows "strip_with P l = l"
proof (cases l)
  case Nil
  then show ?thesis by (simp add: strip_with_def rstrip_with_def)
next
  case (Cons a as)
  with assms have h: "\<not> P a" and la: "\<not> P (last l)" by auto
  have 1: "dropWhile P l = l" using Cons h by simp
  have "rev l \<noteq> []" using Cons by simp
  moreover have "hd (rev l) = last l" using Cons by (simp add: hd_rev)
  ultimately obtain x xs where rl: "rev l = x # xs" "x = last l" by (cases "rev l") auto
  have "dropWhile P (x # xs) = x # xs" using la rl(2) by simp
  then have "dropWhile P (rev l) = rev l" unfolding rl(1) .
  with 1 show ?thesis by (simp add: strip_with_def rstrip_with_def)
qed

lemma strip_id: "trimmed l \<Longrightarrow> strip l = l"
  unfolding trimmed_def strip_def by (rule strip_with_id)

lemma strip_strip: "strip (strip s) = strip s"
  by (rule strip_id[OF strip_trimmed])

lemma strip_with_nonempty:
  assumes "c \<in> set v" "\<not> P c"
  shows "strip_with P v \<noteq> []"
proof -
  from assms have "dropWhile P v \<noteq> []" by (metis dropWhile_eq_Nil_conv)
  define d where "d = dropWhile P v"
  have dn: "d \<noteq> []" using \<open>dropWhile P v \<noteq> []\<close> by (simp add: d_def)
  then have "\<not> P (hd d)" unfolding d_def by (rule hd_dropWhile')
  moreover have "hd d \<in> set (rev d)" using dn by simp
  ultimately have "dropWhile P (rev d) \<noteq> []" by (metis dropWhile_eq_Nil_conv)
  then show ?thesis by (simp add: strip_with_def rstrip_with_def d_def)
qed

lemma space_LF: "is_space LF"
  by (simp add: is_space_def LF_def)

lemma ws_value_full:
  assumes "drop k rest = c # cs" "c \<noteq> LF" "0 < k"
  shows "ws_value rest k = Some (takeWhile (\<lambda>c. c \<noteq> LF) (c # cs))"
  using assms by (cases k) auto

lemma match_tag_trimmed:
  assumes "trimmed l" "match_tag tag l = Some v"
  shows "strip v \<noteq> []"
proof -
  define n where "n = Suc (length tag)"
  define rest where "rest = drop n l"
  define k where "k = length (takeWhile is_space rest)"
  from assms(2) have wv: "ws_value rest k = Some v"
    by (auto simp: match_tag_def Let_def n_def rest_def k_def split: if_splits)
  then have k0: "0 < k" by (cases k) auto
  then have rn: "rest \<noteq> []" by (auto simp: k_def)
  then have ln: "l \<noteq> []" by (auto simp: rest_def)
  have "last rest = last l" using rn unfolding rest_def by simp
  with assms(1) ln have "\<not> is_space (last rest)" by (simp add: trimmed_def)
  moreover have "last rest \<in> set rest" using rn by simp
  ultimately have dn: "dropWhile is_space rest \<noteq> []" by (metis dropWhile_eq_Nil_conv)
  then obtain c cs where d: "dropWhile is_space rest = c # cs" by (cases "dropWhile is_space rest") auto
  then have "\<not> is_space c" using hd_dropWhile'[OF dn] by simp
  then have cl: "c \<noteq> LF" using space_LF by auto
  have "drop k rest = c # cs" using d by (simp add: k_def dropWhile_eq_drop)
  from ws_value_full[OF this cl k0] wv have "v = takeWhile (\<lambda>c. c \<noteq> LF) (c # cs)" by simp
  then have "c \<in> set v" using cl by simp
  with \<open>\<not> is_space c\<close> show ?thesis
    unfolding strip_def using strip_with_nonempty[of c v is_space] by blast
qed

lemma match_tag_head:
  assumes "match_tag tag l = Some v" "tag = t # ts"
  shows "take 2 (lower l) = [CHR ''@'', t]"
proof -
  from assms have "lower (take (Suc (length tag)) l) = CHR ''@'' # tag"
    by (auto simp: match_tag_def Let_def split: if_splits)
  then have "take (Suc (Suc (length ts))) (lower l) = CHR ''@'' # t # ts"
    using assms(2) by (simp add: lower_def take_map)
  then have "take 2 (take (Suc (Suc (length ts))) (lower l)) = [CHR ''@'', t]" by simp
  then show ?thesis by (simp add: min_def)
qed

lemma match_tag_exclusive:
  assumes "match_tag (t # ts) l = Some v" "t \<noteq> t'"
  shows "match_tag (t' # ts') l = None"
proof (cases "match_tag (t' # ts') l")
  case None then show ?thesis .
next
  case (Some w)
  from match_tag_head[OF assms(1) refl] match_tag_head[OF Some refl] assms(2)
  show ?thesis by simp
qed

lemma parse_line_package:
  "meta_package (parse_line m l) =
     (if meta_package m = [] then (case match_tag ''package'' l of Some v \<Rightarrow> strip v | None \<Rightarrow> [])
      else meta_package m)"
  by (auto simp: parse_line_def split: option.splits bool.splits)

lemma parse_line_author:
  "meta_author (parse_line m l) =
     (if meta_author m = [] then (case match_tag ''author'' l of Some v \<Rightarrow> strip v | None \<Rightarrow> [])
      else meta_author m)"
  using match_tag_exclusive[of "CHR ''p''" "''ackage''" l _ "CHR ''a''" "''uthor''"]
  by (auto simp: parse_line_def split: option.splits bool.splits)

lemma parse_line_version:
  "meta_version (parse_line m l) =
     (if meta_version m = [] then (case match_tag ''version'' l of Some v \<Rightarrow> strip v | None \<Rightarrow> [])
      else meta_version m)"
  using match_tag_exclusive[of "CHR ''p''" "''ackage''" l _ "CHR ''v''" "''ersion''"]
        match_tag_exclusive[of "CHR ''a''" "''uthor''" l _ "CHR ''v''" "''ersion''"]
  by (auto simp: parse_line_def split: option.splits bool.splits)

lemma parse_line_link:
  "meta_link (parse_line m l) =
     (if meta_link m = [] then (case match_tag ''link'' l of Some v \<Rightarrow> strip v | None \<Rightarrow> [])
      else meta_link m)"
  using match_tag_exclusive[of "CHR ''p''" "''ackage''" l _ "CHR ''l''" "''ink''"]
        match_tag_exclusive[of "CHR ''a''" "''uthor''" l _ "CHR ''l''" "''ink''"]
        match_tag_exclusive[of "CHR ''v''" "''ersion''" l _ "CHR ''l''" "''ink''"]
  by (auto simp: parse_line_def split: option.splits bool.splits)

lemma parse_line_description: "meta_description (parse_line m l) = meta_description m"
  by (auto simp: parse_line_def split: option.splits bool.splits)

lemma fold_parse_line_field:
  assumes step: "\<And>m l. g (parse_line m l) =
     (if g m = [] then (case match_tag tag l of Some v \<Rightarrow> strip v | None \<Rightarrow> []) else g m)"
    and "list_all trimmed ls"
  shows "g (fold (\<lambda>line m. parse_line m line) ls m) =
     (if g m = [] then first_tag_value tag ls else g m)"
  using assms(2)
proof (induction ls arbitrary: m)
  case Nil
  then show ?case by (simp add: first_tag_value_def)
next
  case (Cons l ls)
  then have tl: "trimmed l" and ih: "g (fold (\<lambda>line m. parse_line m line) ls (parse_line m l)) =
     (if g (parse_line m l) = [] then first_tag_value tag ls else g (parse_line m l))" by simp_all
  show ?case
  proof (cases "g m = []")
    case False
    then show ?thesis using ih step[of m l] by simp
  next
    case True
    show ?thesis
    proof (cases "match_tag tag l")
      case None
      then show ?thesis using True ih step[of m l] by (simp add: first_tag_value_def)
    next
      case (Some v)
      then have "strip v \<noteq> []" using match_tag_trimmed[OF tl] by blast
      then show ?thesis using True Some ih step[of m l] by (simp add: first_tag_value_def)
    qed
  qed
qed

lemma fold_parse_line_description:
  "meta_description (fold (\<lambda>line m. parse_line m line) ls m) = meta_description m"
  by (induction ls arbitrary: m) (simp_all add: parse_line_description)

lemma pick_first_nonempty_find:
  "list_all trimmed ls \<Longrightarrow> pick_first_nonempty ls = first_description ls"
  by (induction ls) (auto simp: first_description_def strip_id)

lemma docblock_lines_trimmed: "list_all trimmed (docblock_lines doc)"
  by (simp add: docblock_lines_def docblock_line_def Let_def list_all_iff strip_trimmed)

text \<open>
  The loop of the parser, with its guards and \<open>continue\<close> statements, computes for each
  tag the value of the first line that carries it, and leaves the description as it was
  picked before the loop.
\<close>

lemma parse_docblock_fields:
  "parse_docblock doc =
     \<lparr>meta_package = first_tag_value ''package'' (docblock_lines doc),
      meta_author = first_tag_value ''author'' (docblock_lines doc),
      meta_version = first_tag_value ''version'' (docblock_lines doc),
      meta_link = first_tag_value ''link'' (docblock_lines doc),
      meta_description = first_description (docblock_lines doc)\<rparr>"
proof -
  define ls where "ls = docblock_lines doc"
  define m0 where "m0 = \<lparr>meta_package = [], meta_author = [], meta_version = [], meta_link = [],
               meta_description = pick_first_nonempty ls\<rparr>"
  define r where "r = fold (\<lambda>line m. parse_line m line) ls m0"
  have t: "list_all trimmed ls" unfolding ls_def by (rule docblock_lines_trimmed)
  have pd: "parse_docblock doc = r" by (simp add: parse_docblock_def Let_def r_def m0_def ls_def)
  have 1: "meta_package r = first_tag_value ''package'' ls"
    unfolding r_def using fold_parse_line_field[of meta_package "''package''" ls m0, OF parse_line_package t]
    by (simp add: m0_def)
  have 2: "meta_author r = first_tag_value ''author'' ls"
    unfolding r_def using fold_parse_line_field[of meta_author "''author''" ls m0, OF parse_line_author t]
    by (simp add: m0_def)
  have 3: "meta_version r = first_tag_value ''version'' ls"
    unfolding r_def using fold_parse_line_field[of meta_version "''version''" ls m0, OF parse_line_version t]
    by (simp add: m0_def)
  have 4: "meta_link r = first_tag_value ''link'' ls"
    unfolding r_def using fold_parse_line_field[of meta_link "''link''" ls m0, OF parse_line_link t]
    by (simp add: m0_def)
  have 5: "meta_description r = first_description ls"
    unfolding r_def by (simp add: fold_parse_line_description m0_def pick_first_nonempty_find[OF t])
  show ?thesis unfolding pd ls_def[symmetric] using 1 2 3 4 5 by (cases r) simp
qed

lemma sample_block_parsed:
  "parse_docblock sample_block =
     \<lparr>meta_package = ''Foo'', meta_author = ''Jane'', meta_version = ''1.2'',
      meta_link = ''http://example.com'', meta_description = ''A sample plugin.''\<rparr>"
  by code_simp


text \<open>
  Claim C6. For every comment block the parser sets the description to the first
  non-empty stripped line that does not begin with \<open>@\<close>, and for each of the tags
  package, author, version and link it takes the value of the first line that carries the
  tag (matched without regard to case), whatever later lines say. The sample block with
  \<open>@package Foo\<close>, \<open>@author Jane\<close>, \<open>@version 1.2\<close>, \<open>@link http://example.com\<close>, the
  descriptive line \<open>A sample plugin.\<close> and a later \<open>@author Bob\<close> yields exactly the first
  five values.
\<close>

theorem parse_docblock_first_occurrence:
  "parse_docblock doc =
     \<lparr>meta_package = first_tag_value ''package'' (docblock_lines doc),
      meta_author = first_tag_value ''author'' (docblock_lines doc),
      meta_version = first_tag_value ''version'' (docblock_lines doc),
      meta_link = first_tag_value ''link'' (docblock_lines doc),
      meta_description = first_description (docblock_lines doc)\<rparr>
   \<and> parse_docblock sample_block =
     \<lparr>meta_package = ''Foo'', meta_author = ''Jane'', meta_version = ''1.2'',
      meta_link = ''http://example.com'', meta_description = ''A sample plugin.''\<rparr>"
  using parse_docblock_fields sample_block_parsed by blast


subsection \<open>The version cleaner\<close>

lemma not_digit_dot: "\<not> is_digit (CHR ''.'')"
  by (simp add: is_digit_def)

lemma takeWhile_digits_dot:
  "list_all is_digit a \<Longrightarrow> takeWhile is_digit (a @ CHR ''.'' # r) = a"
  by (simp add: takeWhile_tail not_digit_dot list_all_iff)

lemma dropWhile_digits_dot:
  "list_all is_digit a \<Longrightarrow> dropWhile is_digit (a @ CHR ''.'' # r) = CHR ''.'' # r"
  by (simp add: dropWhile_append3 not_digit_dot list_all_iff)

lemma takeWhile_digits_prefix:
  "list_all is_digit b \<Longrightarrow> takeWhile is_digit (b @ r) = b @ takeWhile is_digit r"
  by (simp add: list_all_iff)

lemma match_dotted_sound:
  assumes "match_dotted s = Some m"
  shows "\<exists>post. s = m @ post \<and> is_dotted m"
proof -
  define d1 where "d1 = takeWhile is_digit s"
  define r1 where "r1 = dropWhile is_digit s"
  have s1: "s = d1 @ r1" by (simp add: d1_def r1_def)
  from assms have d1n: "d1 \<noteq> []"
    by (auto simp: match_dotted_def Let_def d1_def split: if_splits)
  have d1d: "list_all is_digit d1" unfolding d1_def list_all_iff by (auto dest: set_takeWhileD)
  from assms obtain r where r1c: "r1 = CHR ''.'' # r"
    by (cases r1) (auto simp: match_dotted_def Let_def d1_def r1_def split: if_splits list.splits)
  define d2 where "d2 = takeWhile is_digit r"
  define r2 where "r2 = dropWhile is_digit r"
  have s2: "r = d2 @ r2" by (simp add: d2_def r2_def)
  have d2d: "list_all is_digit d2" unfolding d2_def list_all_iff by (auto dest: set_takeWhileD)
  from assms r1c d1n have d2n: "d2 \<noteq> []"
    by (auto simp: match_dotted_def Let_def d1_def[symmetric] r1_def[symmetric] d2_def split: if_splits list.splits)
  have dg: "is_digits d1" "is_digits d2" using d1n d1d d2n d2d by (simp_all add: is_digits_def)
  from assms r1c d1n d2n have m:
    "(case r2 of [] \<Rightarrow> Some (d1 @ ''.'' @ d2)
          | c2 # r3 \<Rightarrow> if c2 = CHR ''.'' \<and> takeWhile is_digit r3 \<noteq> []
                       then Some (d1 @ ''.'' @ d2 @ ''.'' @ takeWhile is_digit r3)
                       else Some (d1 @ ''.'' @ d2)) = Some m"
    unfolding d2_def r2_def
    by (simp add: match_dotted_def Let_def d1_def[symmetric] r1_def[symmetric])
  show ?thesis
  proof (cases "\<exists>r3. r2 = CHR ''.'' # r3 \<and> takeWhile is_digit r3 \<noteq> []")
    case True
    then obtain r3 where r3: "r2 = CHR ''.'' # r3" "takeWhile is_digit r3 \<noteq> []" by blast
    define d3 where "d3 = takeWhile is_digit r3"
    have "r3 = d3 @ dropWhile is_digit r3" by (simp add: d3_def)
    moreover have mm: "m = d1 @ ''.'' @ d2 @ ''.'' @ d3" using m r3 by (simp add: d3_def)
    ultimately have "s = m @ dropWhile is_digit r3" using s1 r1c s2 r3 by simp
    moreover have "is_digits d3" using r3(2) unfolding d3_def is_digits_def list_all_iff
      by (auto dest: set_takeWhileD)
    then have "is_dotted m" unfolding is_dotted_def using dg mm by blast
    ultimately show ?thesis by blast
  next
    case False
    then have mm: "m = d1 @ ''.'' @ d2" using m by (cases r2) auto
    then have "s = m @ r2" using s1 r1c s2 by simp
    moreover have "is_dotted m" unfolding is_dotted_def using dg mm by blast
    ultimately show ?thesis by blast
  qed
qed

lemma match_dotted_complete:
  assumes "s = m' @ post'" "is_dotted m'"
  shows "\<exists>m. match_dotted s = Some m \<and> length m' \<le> length m"
proof -
  from assms(2) obtain a b where ab: "is_digits a" "is_digits b"
    and m': "m' = a @ ''.'' @ b \<or> (\<exists>c. is_digits c \<and> m' = a @ ''.'' @ b @ ''.'' @ c)"
    unfolding is_dotted_def by blast
  have ad: "list_all is_digit a" "a \<noteq> []" and bd: "list_all is_digit b" "b \<noteq> []"
    using ab by (simp_all add: is_digits_def)
  from m' show ?thesis
  proof
    assume e: "m' = a @ ''.'' @ b"
    then have s: "s = a @ CHR ''.'' # (b @ post')" using assms(1) by simp
    define d2 where "d2 = takeWhile is_digit (b @ post')"
    have d2: "d2 = b @ takeWhile is_digit post'" unfolding d2_def by (rule takeWhile_digits_prefix[OF bd(1)])
    then have d2n: "d2 \<noteq> []" using bd(2) by simp
    have "\<exists>m. match_dotted s = Some m \<and> length (a @ ''.'' @ d2) \<le> length m"
      unfolding s match_dotted_def Let_def
      by (simp add: takeWhile_digits_dot[OF ad(1)] dropWhile_digits_dot[OF ad(1)] ad(2)
          d2_def[symmetric] d2n split: list.splits)
    then show ?thesis using e d2 by auto
  next
    assume "\<exists>c. is_digits c \<and> m' = a @ ''.'' @ b @ ''.'' @ c"
    then obtain c where c: "list_all is_digit c" "c \<noteq> []" and e: "m' = a @ ''.'' @ b @ ''.'' @ c"
      by (auto simp: is_digits_def)
    then have s: "s = a @ CHR ''.'' # (b @ CHR ''.'' # (c @ post'))" using assms(1) by simp
    define d3 where "d3 = takeWhile is_digit (c @ post')"
    have d3: "d3 = c @ takeWhile is_digit post'" unfolding d3_def by (rule takeWhile_digits_prefix[OF c(1)])
    then have d3n: "d3 \<noteq> []" using c(2) by simp
    have "match_dotted s = Some (a @ ''.'' @ b @ ''.'' @ d3)"
      unfolding s match_dotted_def Let_def
      by (simp add: takeWhile_digits_dot[OF ad(1)] dropWhile_digits_dot[OF ad(1)] ad(2)
          takeWhile_digits_dot[OF bd(1)] dropWhile_digits_dot[OF bd(1)] bd(2)
          d3_def[symmetric] d3n)
    then show ?thesis using e d3 by simp
  qed
qed

lemma match_dotted_Nil: "match_dotted [] = None"
  by (simp add: match_dotted_def)

lemma search_dotted_Some:
  "search_dotted s = Some m \<Longrightarrow>
     \<exists>pre post. s = pre @ m @ post \<and> match_dotted (drop (length pre) s) = Some m \<and>
       (\<forall>i < length pre. match_dotted (drop i s) = None)"
proof (induction s)
  case Nil
  then show ?case by simp
next
  case (Cons c cs)
  show ?case
  proof (cases "match_dotted (c # cs)")
    case (Some m')
    with Cons.prems have mm: "m' = m" by simp
    from match_dotted_sound[OF Some] obtain post where "c # cs = m' @ post" by blast
    then have "c # cs = [] @ m @ post \<and> match_dotted (drop (length ([]::string)) (c # cs)) = Some m
        \<and> (\<forall>i < length ([]::string). match_dotted (drop i (c # cs)) = None)"
      using Some mm by simp
    then show ?thesis by blast
  next
    case None
    with Cons.prems have "search_dotted cs = Some m" by simp
    from Cons.IH[OF this] obtain pre post where p: "cs = pre @ m @ post"
      "match_dotted (drop (length pre) cs) = Some m"
      "\<forall>i < length pre. match_dotted (drop i cs) = None" by blast
    have "\<forall>i < length (c # pre). match_dotted (drop i (c # cs)) = None"
    proof (intro allI impI)
      fix i assume "i < length (c # pre)"
      then show "match_dotted (drop i (c # cs)) = None"
        using None p(3) by (cases i) auto
    qed
    with p(1,2) have "c # cs = (c # pre) @ m @ post \<and>
        match_dotted (drop (length (c # pre)) (c # cs)) = Some m \<and>
        (\<forall>i < length (c # pre). match_dotted (drop i (c # cs)) = None)" by simp
    then show ?thesis by blast
  qed
qed

lemma search_dotted_None:
  "search_dotted s = None \<Longrightarrow> match_dotted (drop i s) = None"
proof (induction s arbitrary: i)
  case Nil
  then show ?case by (simp add: match_dotted_Nil)
next
  case (Cons c cs)
  then have 1: "match_dotted (c # cs) = None" and 2: "search_dotted cs = None"
    by (auto split: option.splits)
  show ?case using 1 Cons.IH[OF 2] by (cases i) auto
qed

lemma search_dotted_first: "search_dotted s = Some m \<Longrightarrow> first_dotted_in s m"
proof -
  assume "search_dotted s = Some m"
  from search_dotted_Some[OF this] obtain pre post where p: "s = pre @ m @ post"
    "match_dotted (drop (length pre) s) = Some m"
    "\<forall>i < length pre. match_dotted (drop i s) = None" by blast
  have d: "is_dotted m" using match_dotted_sound[OF p(2)] by blast
  have "\<forall>pre' m' post'. s = pre' @ m' @ post' \<and> is_dotted m' \<longrightarrow>
        length pre \<le> length pre' \<and> (length pre' = length pre \<longrightarrow> length m' \<le> length m)"
  proof (intro allI impI)
    fix pre' m' post' assume a: "s = pre' @ m' @ post' \<and> is_dotted m'"
    then have "drop (length pre') s = m' @ post'" by simp
    from match_dotted_complete[OF this] a obtain m'' where
      m'': "match_dotted (drop (length pre') s) = Some m''" "length m' \<le> length m''" by blast
    have 1: "length pre \<le> length pre'"
    proof (rule ccontr)
      assume "\<not> length pre \<le> length pre'"
      then have "match_dotted (drop (length pre') s) = None" using p(3) by simp
      with m''(1) show False by simp
    qed
    have 2: "length pre' = length pre \<longrightarrow> length m' \<le> length m"
      using m'' p(2) by auto
    from 1 2 show "length pre \<le> length pre' \<and> (length pre' = length pre \<longrightarrow> length m' \<le> length m)" ..
  qed
  with p(1) d show ?thesis unfolding first_dotted_in_def by blast
qed

lemma search_dotted_absent: "search_dotted s = None \<Longrightarrow> \<not> contains_dotted s"
proof
  assume n: "search_dotted s = None" and "contains_dotted s"
  then obtain pre m post where a: "s = pre @ m @ post" "is_dotted m"
    unfolding contains_dotted_def by blast
  then have "drop (length pre) s = m @ post" by simp
  from match_dotted_complete[OF this a(2)] search_dotted_None[OF n, of "length pre"]
  show False by simp
qed

lemma first_dotted_in_contains: "first_dotted_in s m \<Longrightarrow> contains_dotted s"
  unfolding first_dotted_in_def contains_dotted_def by blast

lemma search_dotted_iff: "contains_dotted s \<longleftrightarrow> search_dotted s \<noteq> None"
proof (cases "search_dotted s")
  case None
  then show ?thesis using search_dotted_absent by simp
next
  case (Some m)
  then have "contains_dotted s" using search_dotted_first first_dotted_in_contains by blast
  with Some show ?thesis by simp
qed

lemma clean_version_dotted:
  assumes "contains_dotted (strip v)"
  shows "first_dotted_in (strip v) (clean_version v)"
proof -
  from assms obtain m where m: "search_dotted (strip v) = Some m"
    using search_dotted_iff by auto
  then have "strip v \<noteq> []" by auto
  then have "clean_version v = m" using m by (simp add: clean_version_def Let_def)
  with search_dotted_first[OF m] show ?thesis by simp
qed

lemma clean_version_fallback:
  assumes "\<not> contains_dotted (strip v)"
  shows "clean_version v =
     filter is_version_char (map (\<lambda>c. if c = CHR ''_'' then CHR ''.'' else c)
       (dropWhile (\<lambda>c. c = CHR ''v'' \<or> c = CHR ''V'') (strip v)))"
proof -
  from assms have "search_dotted (strip v) = None" using search_dotted_iff by auto
  then show ?thesis by (cases "strip v = []") (simp_all add: clean_version_def Let_def version_fallback_def)
qed

lemma clean_version_examples:
  "clean_version ''v2.3.1-beta'' = ''2.3.1'' \<and> clean_version ''Version 1.0'' = ''1.0''
   \<and> clean_version [] = []"
  by code_simp

text \<open>
  Claim C5, as stated, fails where the string has no dotted numeric sequence: the claim
  strips one leading \<open>v\<close>, the code strips every leading \<open>v\<close> and \<open>V\<close>. On \<open>vv1\<close> the
  code returns \<open>1\<close> where the stated rule gives \<open>v1\<close>, and on \<open>V1\<close> the code returns \<open>1\<close>
  where the stated rule gives \<open>V1\<close>.
\<close>

theorem clean_version_double_v_counterexample:
  "\<not> contains_dotted ''vv1'' \<and> clean_version ''vv1'' = ''1''
   \<and> version_fallback_spec ''vv1'' = ''v1''
   \<and> \<not> contains_dotted ''V1'' \<and> clean_version ''V1'' = ''1''
   \<and> version_fallback_spec ''V1'' = ''V1''"
proof -
  have "search_dotted ''V1'' = None" by code_simp
  then have "\<not> contains_dotted ''V1''" by (rule search_dotted_absent)
  moreover have "clean_version ''V1'' = ''1''" by code_simp
  moreover have "version_fallback_spec ''V1'' = ''V1''" by code_simp
  moreover
  have "search_dotted ''vv1'' = None" by code_simp
  then have "\<not> contains_dotted ''vv1''" by (rule search_dotted_absent)
  moreover have "clean_version ''vv1'' = ''1''" by code_simp
  moreover have "version_fallback_spec ''vv1'' = ''v1''" by code_simp
  ultimately show ?thesis by blast
qed

text \<open>
  Claim C5, amended. Let \<open>v'\<close> be the raw version string without its surrounding white
  space. If \<open>v'\<close> contains a dotted numeric sequence of two or three components, the
  cleaner returns the first one: the occurrence that starts leftmost and, there, is the
  longest. Otherwise it returns \<open>v'\<close> with every leading \<open>v\<close> and \<open>V\<close> stripped, underscores
  turned into dots, and every character outside \<open>[0-9A-Za-z.+-]\<close> removed. It maps
  \<open>v2.3.1-beta\<close> to \<open>2.3.1\<close>, \<open>Version 1.0\<close> to \<open>1.0\<close> and the empty string to itself.
\<close>

theorem clean_version_first_dotted_or_fallback:
  "(contains_dotted (strip v) \<longrightarrow> first_dotted_in (strip v) (clean_version v))
   \<and> (\<not> contains_dotted (strip v) \<longrightarrow> clean_version v =
        filter is_version_char (map (\<lambda>c. if c = CHR ''_'' then CHR ''.'' else c)
          (dropWhile (\<lambda>c. c = CHR ''v'' \<or> c = CHR ''V'') (strip v))))
   \<and> clean_version ''v2.3.1-beta'' = ''2.3.1'' \<and> clean_version ''Version 1.0'' = ''1.0''
   \<and> clean_version [] = []"
  using clean_version_dotted clean_version_fallback clean_version_examples by blast

theorem clean_version_first_dotted_or_fallback_witness:
  "contains_dotted (strip ''Version 1.0'')
   \<and> first_dotted_in (strip ''Version 1.0'') (clean_version ''Version 1.0'')
   \<and> clean_version ''Version 1.0'' = ''1.0''
   \<and> \<not> contains_dotted (strip '' vV1_2beta! '')
   \<and> clean_version '' vV1_2beta! '' = ''1.2beta''"
proof -
  have "search_dotted (strip ''Version 1.0'') \<noteq> None" by code_simp
  then have 1: "contains_dotted (strip ''Version 1.0'')" by (simp add: search_dotted_iff)
  have "search_dotted (strip '' vV1_2beta! '') = None" by code_simp
  then have 2: "\<not> contains_dotted (strip '' vV1_2beta! '')" by (rule search_dotted_absent)
  have 3: "filter is_version_char (map (\<lambda>c. if c = CHR ''_'' then CHR ''.'' else c)
          (dropWhile (\<lambda>c. c = CHR ''v'' \<or> c = CHR ''V'') (strip '' vV1_2beta! ''))) = ''1.2beta''"
    by code_simp
  from 1 2 3 clean_version_first_dotted_or_fallback[of "''Version 1.0''"]
    clean_version_first_dotted_or_fallback[of "'' vV1_2beta! ''"]
  show ?thesis by simp
qed

section \<open>Properties of the project builder\<close>

lemma occurs_at_Cons_0: "occurs_at sub (c # cs) 0 \<longleftrightarrow> startswith (c # cs) sub"
  by (simp add: occurs_at_def startswith_def)

lemma occurs_at_Cons_Suc: "occurs_at sub (c # cs) (Suc i) \<longleftrightarrow> occurs_at sub cs i"
  by (simp add: occurs_at_def)

lemma occurs_at_Nil: "sub \<noteq> [] \<Longrightarrow> \<not> occurs_at sub [] i"
  by (auto simp: occurs_at_def)

lemma find_sub_None:
  "sub \<noteq> [] \<Longrightarrow> find_sub sub s = None \<longleftrightarrow> (\<forall>i. \<not> occurs_at sub s i)"
proof (induction s)
  case Nil
  then show ?case by (simp add: occurs_at_Nil)
next
  case (Cons c cs)
  have "(\<forall>i. \<not> occurs_at sub (c # cs) i) \<longleftrightarrow>
        \<not> occurs_at sub (c # cs) 0 \<and> (\<forall>i. \<not> occurs_at sub (c # cs) (Suc i))"
    by (metis nat.exhaust)
  then show ?case using Cons by (simp add: occurs_at_Cons_0 occurs_at_Cons_Suc)
qed

lemma find_sub_Some:
  "sub \<noteq> [] \<Longrightarrow> find_sub sub s = Some i \<longleftrightarrow>
     occurs_at sub s i \<and> (\<forall>j<i. \<not> occurs_at sub s j)"
proof (induction s arbitrary: i)
  case Nil
  then show ?case by (simp add: occurs_at_Nil)
next
  case (Cons c cs)
  show ?case
  proof (cases "startswith (c # cs) sub")
    case True
    then have 0: "occurs_at sub (c # cs) 0" by (simp add: occurs_at_Cons_0)
    have "find_sub sub (c # cs) = Some i \<longleftrightarrow> i = 0" using True by auto
    also have "\<dots> \<longleftrightarrow> occurs_at sub (c # cs) i \<and> (\<forall>j<i. \<not> occurs_at sub (c # cs) j)"
      using 0 by (cases i) auto
    finally show ?thesis .
  next
    case False
    then have n0: "\<not> occurs_at sub (c # cs) 0" by (simp add: occurs_at_Cons_0)
    show ?thesis
    proof (cases i)
      case 0
      then show ?thesis using False n0 by auto
    next
      case (Suc k)
      have "(\<forall>j<Suc k. \<not> occurs_at sub (c # cs) j) \<longleftrightarrow> (\<forall>j<k. \<not> occurs_at sub cs j)"
      proof
        assume a: "\<forall>j<Suc k. \<not> occurs_at sub (c # cs) j"
        show "\<forall>j<k. \<not> occurs_at sub cs j"
        proof (intro allI impI)
          fix j assume "j < k"
          then have "\<not> occurs_at sub (c # cs) (Suc j)" using a by simp
          then show "\<not> occurs_at sub cs j" by (simp add: occurs_at_Cons_Suc)
        qed
      next
        assume a: "\<forall>j<k. \<not> occurs_at sub cs j"
        show "\<forall>j<Suc k. \<not> occurs_at sub (c # cs) j"
        proof (intro allI impI)
          fix j assume "j < Suc k"
          then show "\<not> occurs_at sub (c # cs) j"
            using a n0 by (cases j) (auto simp: occurs_at_Cons_Suc)
        qed
      qed
      moreover have "find_sub sub (c # cs) = Some (Suc k) \<longleftrightarrow> find_sub sub cs = Some k"
        using False by auto
      ultimately show ?thesis using Suc Cons.IH[OF Cons.prems, of k]
        by (simp add: occurs_at_Cons_Suc)
    qed
  qed
qed

lemma find_from_None:
  "sub \<noteq> [] \<Longrightarrow> find_from sub s start = None \<longleftrightarrow> (\<forall>j\<ge>start. \<not> occurs_at sub s j)"
proof -
  assume n: "sub \<noteq> []"
  have "(\<forall>i. \<not> occurs_at sub (drop start s) i) \<longleftrightarrow> (\<forall>j\<ge>start. \<not> occurs_at sub s j)"
  proof
    assume a: "\<forall>i. \<not> occurs_at sub (drop start s) i"
    show "\<forall>j\<ge>start. \<not> occurs_at sub s j"
    proof (intro allI impI)
      fix j assume "start \<le> j"
      then have "drop j s = drop (j - start) (drop start s)" by simp
      then show "\<not> occurs_at sub s j" using a by (simp add: occurs_at_def del: drop_drop)
    qed
  next
    assume a: "\<forall>j\<ge>start. \<not> occurs_at sub s j"
    show "\<forall>i. \<not> occurs_at sub (drop start s) i"
    proof
      fix i
      have "\<not> occurs_at sub s (i + start)" using a by simp
      then show "\<not> occurs_at sub (drop start s) i" by (simp add: occurs_at_def)
    qed
  qed
  then show ?thesis using find_sub_None[OF n, of "drop start s"] by (simp add: find_from_def)
qed

lemma first_docblock_no_open:
  assumes "\<forall>i. \<not> occurs_at ''/**'' (take 8000 text) i"
  shows "first_docblock text = []"
proof -
  have "find_sub ''/**'' (take 8000 text) = None"
    using assms find_sub_None[of "''/**''" "take 8000 text"] by simp
  then show ?thesis by (simp add: first_docblock_def)
qed

lemma first_docblock_no_close:
  assumes "occurs_at ''/**'' (take 8000 text) i" "\<forall>j<i. \<not> occurs_at ''/**'' (take 8000 text) j"
    "\<forall>j\<ge>i. \<not> occurs_at ''*/'' (take 8000 text) j"
  shows "first_docblock text = []"
proof -
  have 1: "find_sub ''/**'' (take 8000 text) = Some i"
    using assms(1,2) find_sub_Some[of "''/**''" "take 8000 text" i] by simp
  have 2: "find_from ''*/'' (take 8000 text) i = None"
    using assms(3) find_from_None[of "''*/''" "take 8000 text" i] by simp
  show ?thesis using 1 2 by (simp add: first_docblock_def)
qed

text \<open>
  Claim C10. If no \<open>/**\<close> marker occurs within the first 8000 characters of the text, or
  the first \<open>/**\<close> within that prefix has no \<open>*/\<close> at or after its position within the
  same prefix, then metadata extraction returns the all-empty record, whatever follows
  the prefix.
\<close>

theorem project_meta_empty_without_block:
  assumes "(\<forall>i. \<not> occurs_at ''/**'' (take 8000 text) i)
     \<or> (\<exists>i. occurs_at ''/**'' (take 8000 text) i
            \<and> (\<forall>j<i. \<not> occurs_at ''/**'' (take 8000 text) j)
            \<and> (\<forall>j\<ge>i. \<not> occurs_at ''*/'' (take 8000 text) j))"
  shows "project_meta text = empty_meta"
proof -
  from assms have "first_docblock text = []"
    using first_docblock_no_open first_docblock_no_close by blast
  then show ?thesis by (simp add: project_meta_def)
qed

text \<open>
  Two inputs of the theorem: 8000 spaces followed by the complete sample block, which
  lies beyond the inspected prefix, and a block that is opened but never closed.
\<close>

lemma take_replicate_prefix: "take n (replicate n x @ ys) = replicate n x"
  by simp

lemma no_occurrence_replicate:
  assumes "x \<notin> set sub" "sub \<noteq> []"
  shows "\<not> occurs_at sub (replicate n x) i"
proof
  assume "occurs_at sub (replicate n x) i"
  then have "set sub = set (take (length sub) (drop i (replicate n x)))"
    by (simp add: occurs_at_def)
  also have "\<dots> \<subseteq> set (replicate n x)"
    by (meson set_drop_subset set_take_subset subset_trans)
  also have "\<dots> \<subseteq> {x}" by auto
  finally have "set sub \<subseteq> {x}" .
  moreover have "hd sub \<in> set sub" using assms(2) by simp
  ultimately show False using assms(1) by auto
qed

theorem project_meta_empty_without_block_witness:
  "(\<forall>i. \<not> occurs_at ''/**'' (take 8000 (replicate 8000 (CHR '' '') @ sample_block)) i)
   \<and> project_meta (replicate 8000 (CHR '' '') @ sample_block) = empty_meta
   \<and> parse_docblock sample_block \<noteq> empty_meta
   \<and> occurs_at ''/**'' (take 8000 ''<?php /** never closed'') 6
   \<and> project_meta ''<?php /** never closed'' = empty_meta"
proof -
  have h: "take 8000 (replicate 8000 (CHR '' '') @ sample_block) = replicate 8000 (CHR '' '')"
    by (rule take_replicate_prefix)
  have 1: "\<forall>i. \<not> occurs_at ''/**'' (take 8000 (replicate 8000 (CHR '' '') @ sample_block)) i"
    unfolding h by (intro allI no_occurrence_replicate) simp_all
  have a: "project_meta (replicate 8000 (CHR '' '') @ sample_block) = empty_meta"
    by (rule project_meta_empty_without_block, rule disjI1, rule 1)
  have 2: "parse_docblock sample_block \<noteq> empty_meta" by code_simp
  have t: "take 8000 ''<?php /** never closed'' = ''<?php /** never closed''"
    by (rule take_all) simp
  have f: "find_sub ''/**'' (take 8000 ''<?php /** never closed'') = Some 6"
    unfolding t by code_simp
  have g: "find_from ''*/'' (take 8000 ''<?php /** never closed'') 6 = None"
    unfolding t by code_simp
  have 3: "occurs_at ''/**'' (take 8000 ''<?php /** never closed'') 6
     \<and> (\<forall>j<6. \<not> occurs_at ''/**'' (take 8000 ''<?php /** never closed'') j)"
    by (rule iffD1[OF find_sub_Some f]) simp
  have 4: "\<forall>j\<ge>6. \<not> occurs_at ''*/'' (take 8000 ''<?php /** never closed'') j"
    by (rule iffD1[OF find_from_None g]) simp
  have c: "occurs_at ''/**'' (take 8000 ''<?php /** never closed'') 6"
    by (rule conjunct1[OF 3])
  have e: "\<exists>i. occurs_at ''/**'' (take 8000 ''<?php /** never closed'') i
            \<and> (\<forall>j<i. \<not> occurs_at ''/**'' (take 8000 ''<?php /** never closed'') j)
            \<and> (\<forall>j\<ge>i. \<not> occurs_at ''*/'' (take 8000 ''<?php /** never closed'') j)"
    using 3 4 by (intro exI[where x=6]) blast
  have b: "project_meta ''<?php /** never closed'' = empty_meta"
    using e by (rule project_meta_empty_without_block[OF disjI2])
  show ?thesis using 1 a 2 c b by blast
qed


end
